theory Spec2Isabelle
  imports Complex_Main "HOL-Library.Signed_Division"
begin

unbundle bit_operations_syntax

section \<open>Machine integers of the AVR target\<close>

text \<open>
  The module is compiled for the ATmega32U4 (avr-gcc): \<open>long\<close> is a 32-bit two's
  complement integer, \<open>int\<close> a 16-bit one, \<open>unsigned\<close> a 16-bit unsigned integer
  and \<open>byte\<close> an 8-bit unsigned integer. Values are mathematical integers here and
  every conversion to a C type is written out as the wrap-around it performs.
\<close>

definition to_long :: "int \<Rightarrow> int" where
  "to_long x = (x + 2147483648) mod 4294967296 - 2147483648"

definition to_int16 :: "int \<Rightarrow> int" where
  "to_int16 x = (x + 32768) mod 65536 - 32768"

definition to_unsigned :: "int \<Rightarrow> int" where
  "to_unsigned x = x mod 65536"

definition to_byte :: "int \<Rightarrow> int" where
  "to_byte x = x mod 256"

text \<open>
  The argument of \<open>set\<close> is a \<open>long\<close>. A theorem below assumes \<open>is_long Freq\<close> where
  its proof needs the bound; the others hold for every integer, the \<open>long\<close> values
  among them.
\<close>

definition is_long :: "int \<Rightarrow> bool" where
  "is_long x \<longleftrightarrow> - 2147483648 \<le> x \<and> x \<le> 2147483647"

text \<open>Arithmetic on \<open>long\<close> operands; C division truncates towards zero.\<close>

definition lmul :: "int \<Rightarrow> int \<Rightarrow> int" where
  "lmul a b = to_long (a * b)"

definition ldiv :: "int \<Rightarrow> int \<Rightarrow> int" where
  "ldiv a b = to_long (a sdiv b)"

definition ladd :: "int \<Rightarrow> int \<Rightarrow> int" where
  "ladd a b = to_long (a + b)"

definition lsub :: "int \<Rightarrow> int \<Rightarrow> int" where
  "lsub a b = to_long (a - b)"

definition lneg :: "int \<Rightarrow> int" where
  "lneg a = to_long (- a)"

section \<open>Constants of the module\<close>

text \<open>
  Modelled from the spec: the macro \<open>F_CPU\<close> is supplied by the board's build
  settings and is not defined in the sources; the spec fixes the base crystal at
  16,000,000 (the source comments say "a crystal of 16MHz").
\<close>

definition F_CPU :: int where
  "F_CPU = 16000000"

text \<open>\<open>static byte CKM[]={1,6,4,3}\<close>: clock pll multipliers (16, 96, 64, 48 MHz).\<close>

definition CKM :: "int list" where
  "CKM = [1, 6, 4, 3]"

section \<open>The divisor search of \<open>FrequencyGenerator::set\<close>\<close>

text \<open>The locals \<open>svPLL\<close>, \<open>svLG\<close>, \<open>svCNT\<close>, \<open>svDIF\<close> holding the best setting so far.\<close>

record best =
  svPLL :: nat
  svLG :: nat
  svCNT :: int
  svDIF :: int

text \<open>\<open>byte pll,lg,svPLL=0,svLG=0; unsigned PS,cnt,svCNT=0; long CK,CV,dif,svDIF=0;\<close>\<close>

definition locals0 :: best where
  "locals0 = \<lparr>svPLL = 0, svLG = 0, svCNT = 0, svDIF = 0\<rparr>"

text \<open>\<open>CK=F_CPU*CKM[pll]\<close>\<close>

definition clock :: "nat \<Rightarrow> int" where
  "clock pll = lmul F_CPU (CKM ! pll)"

text \<open>\<open>CV=CK / Freq / 1024\<close>\<close>

definition divisor_estimate :: "int \<Rightarrow> nat \<Rightarrow> int" where
  "divisor_estimate Freq pll = ldiv (ldiv (clock pll) Freq) 1024"

text \<open>\<open>while (CV > 1) { lg++;  CV=CV>>1; }\<close> with \<open>lg\<close> a byte.\<close>

function log2_loop :: "int \<Rightarrow> nat \<Rightarrow> nat" where
  "log2_loop CV lg = (if CV > 1 then log2_loop (drop_bit 1 CV) ((lg + 1) mod 256) else lg)"
  by pat_completeness auto
termination
  by (relation "measure (\<lambda>(CV, lg). nat CV)") (auto simp: drop_bit_eq_div)

declare log2_loop.simps [simp del]

text \<open>\<open>lg=0; if (CV != 0) { while ... ; lg++; }\<close>\<close>

definition log2_byte :: "int \<Rightarrow> nat" where
  "log2_byte CV = (if CV \<noteq> 0 then (log2_loop CV 0 + 1) mod 256 else 0)"

definition prescale_shift :: "int \<Rightarrow> nat \<Rightarrow> nat" where
  "prescale_shift Freq pll = log2_byte (divisor_estimate Freq pll)"

text \<open>\<open>PS=1<<lg\<close>: the shift is done in \<open>int\<close> and stored in an \<open>unsigned\<close>.\<close>

definition prescaler :: "nat \<Rightarrow> int" where
  "prescaler lg = to_unsigned (to_int16 (push_bit lg 1))"

text \<open>\<open>cnt=((CK*2/PS/Freq)+1)/2\<close>, computed in \<open>long\<close> and stored in an \<open>unsigned\<close>.\<close>

definition reload_count :: "int \<Rightarrow> nat \<Rightarrow> nat \<Rightarrow> int" where
  "reload_count Freq pll lg =
     to_unsigned (ldiv (ladd (ldiv (ldiv (lmul (clock pll) 2) (prescaler lg)) Freq) 1) 2)"

text \<open>
  \<open>dif=(CK - ((long)PS*(long)cnt*Freq));  dif=dif/((long)CKM[pll]);  if (dif<0) dif=-dif;\<close>
\<close>

definition error_score :: "int \<Rightarrow> nat \<Rightarrow> nat \<Rightarrow> int \<Rightarrow> int" where
  "error_score Freq pll lg cnt =
     (let dif = lsub (clock pll) (lmul (lmul (prescaler lg) cnt) Freq);
          dif = ldiv dif (CKM ! pll)
      in if dif < 0 then lneg dif else dif)"

text \<open>
  One pass of the loop body up to the comparison: either one of the two \<open>continue\<close>
  statements is taken, or the clock source yields a candidate setting.
\<close>

datatype outcome = Rejected_clock | Rejected_count | Candidate nat int int

definition evaluate :: "int \<Rightarrow> nat \<Rightarrow> outcome" where
  "evaluate Freq pll =
     (let lg = prescale_shift Freq pll in
      if pll = 1 \<or> lg > 14 then Rejected_clock
      else let cnt = reload_count Freq pll lg in
        if cnt < 4 \<or> cnt > 0x3FF then Rejected_count
        else Candidate lg cnt (error_score Freq pll lg cnt))"

text \<open>\<open>if (dif<svDIF) { svPLL=pll; svLG=lg; svCNT=cnt; svDIF=dif; }\<close>\<close>

definition loop_body :: "int \<Rightarrow> nat \<Rightarrow> best \<Rightarrow> best" where
  "loop_body Freq pll sv =
     (case evaluate Freq pll of
        Candidate lg cnt dif \<Rightarrow>
          if dif < svDIF sv then \<lparr>svPLL = pll, svLG = lg, svCNT = cnt, svDIF = dif\<rparr> else sv
      | _ \<Rightarrow> sv)"

text \<open>\<open>svDIF=0x7FFFFFFFL; for (pll=0; pll<sizeof(CKM); pll++) { ... }\<close>\<close>

definition search :: "int \<Rightarrow> best" where
  "search Freq = fold (loop_body Freq) [0..<length CKM] (locals0\<lparr>svDIF := 0x7FFFFFFF\<rparr>)"

text \<open>\<open>((((F_CPU*CKM[svPLL])*2)/((long)(1<<svLG)*(long)svCNT))+1)/2\<close>\<close>

definition actual_frequency :: "best \<Rightarrow> int" where
  "actual_frequency sv =
     ldiv (ladd (ldiv (lmul (lmul F_CPU (CKM ! svPLL sv)) 2)
                      (lmul (to_long (to_int16 (push_bit (svLG sv) 1))) (to_long (svCNT sv)))) 1) 2"

section \<open>The generator object and the timer it programs\<close>

text \<open>
  The bit numbers \<open>PWM4A\<close> and \<open>COM4A0\<close> come from the device header, which is not
  part of the sources, so the content of \<open>TCCR4A\<close> is kept as the set of bits that
  are set. The other registers hold 8-bit values. The module is built without
  \<open>FRQGENUSEPB6\<close> and \<open>FRQGENDEBUG\<close>, so the output is pin 5 on \<open>OC4A\<close>.
\<close>

datatype tccr4a_bit = PWM4A | COM4A0

datatype pin_mode = INPUT | OUTPUT | INPUT_PULLUP

record generator =
  FreqGenVal :: int
  TCCR4A :: "tccr4a_bit set"
  TCCR4B :: int
  TCCR4D :: int
  PLLFRQ :: int
  TCNT4H :: int
  OCR4C :: int
  OCR4A :: int
  pin5 :: pin_mode

text \<open>\<open>long FrequencyGenerator::read(void) { return _FreqGenVal; }\<close>\<close>

definition read :: "generator \<Rightarrow> int" where
  "read g = FreqGenVal g"

text \<open>The part of \<open>set\<close> from \<open>TCCR4D=0\<close> to the label \<open>DONE\<close>.\<close>

definition program_timer :: "best \<Rightarrow> generator \<Rightarrow> generator" where
  "program_timer sv g0 =
     (let g = g0\<lparr>TCCR4D := 0\<rparr> in
      if FreqGenVal g = 0
      then g\<lparr>TCCR4A := {}, TCCR4B := 0, pin5 := INPUT_PULLUP\<rparr>
      else
        let g = g\<lparr>pin5 := OUTPUT, TCCR4A := {PWM4A, COM4A0}\<rparr>;
            g = g\<lparr>PLLFRQ := to_byte (0x4A OR push_bit 4 (int (svPLL sv) AND 3))\<rparr>;
            PS = to_unsigned (svCNT sv div 2 - 1);
            cnt = to_unsigned (svCNT sv - 1);
            g = g\<lparr>TCNT4H := to_byte (drop_bit 8 cnt), OCR4C := to_byte (cnt AND 0xFF)\<rparr>;
            g = g\<lparr>TCNT4H := to_byte (drop_bit 8 PS), OCR4A := to_byte (PS AND 0xFF)\<rparr>
        in g\<lparr>TCCR4B := to_byte ((int (svLG sv) + 1) AND 0xF)\<rparr>)"

text \<open>
  \<open>long FrequencyGenerator::set(long Freq)\<close>: the returned value and the object
  (with the timer registers) after the call.
\<close>

definition set_freq :: "int \<Rightarrow> generator \<Rightarrow> int \<times> generator" where
  "set_freq Freq g =
     (if Freq < 0 then (FreqGenVal g, g)
      else if Freq = 0 then
        (let g' = program_timer locals0 (g\<lparr>FreqGenVal := 0\<rparr>) in (FreqGenVal g', g'))
      else
        let sv = search Freq in
        if svDIF sv < 0x7FFFFFFF then
          (let g' = program_timer sv (g\<lparr>FreqGenVal := actual_frequency sv\<rparr>)
           in (FreqGenVal g', g'))
        else (- 1, g))"

text \<open>
  A generator as it is constructed (\<open>long _FreqGenVal=0\<close>), with the timer
  registers cleared.
\<close>

definition new_generator :: generator where
  "new_generator = \<lparr>FreqGenVal = 0, TCCR4A = {}, TCCR4B = 0, TCCR4D = 0, PLLFRQ = 0,
     TCNT4H = 0, OCR4C = 0, OCR4A = 0, pin5 = INPUT\<rparr>"

text \<open>
  The two public operations, and a sequence of calls applied to an object (the values
  returned on the way are dropped).
\<close>

datatype call = Set int | Read

fun do_call :: "call \<Rightarrow> generator \<Rightarrow> int \<times> generator" where
  "do_call (Set Freq) g = set_freq Freq g"
| "do_call Read g = (read g, g)"

definition run :: "call list \<Rightarrow> generator \<Rightarrow> generator" where
  "run cs g = fold (\<lambda>c g. snd (do_call c g)) cs g"

section \<open>Values that fit their C type\<close>

lemma to_long_id: "is_long x \<Longrightarrow> to_long x = x"
  by (simp add: to_long_def is_long_def)

lemma to_unsigned_id: "0 \<le> x \<Longrightarrow> x < 65536 \<Longrightarrow> to_unsigned x = x"
  by (simp add: to_unsigned_def)

lemma to_int16_id: "- 32768 \<le> x \<Longrightarrow> x < 32768 \<Longrightarrow> to_int16 x = x"
  by (simp add: to_int16_def)

lemma sdiv_nonneg: "0 \<le> a \<Longrightarrow> 0 < b \<Longrightarrow> a sdiv b = a div (b::int)"
  by (simp add: signed_divide_int_def sgn_if)

lemma CKM_nth:
  "pll < 4 \<Longrightarrow>
     CKM ! pll = (if pll = 0 then 1 else if pll = 1 then 6 else if pll = 2 then 4 else 3)"
  by (auto simp: CKM_def nth_Cons split: nat.splits)

lemma clock_eq: "pll < 4 \<Longrightarrow> clock pll = 16000000 * CKM ! pll"
  by (auto simp: clock_def lmul_def F_CPU_def CKM_nth to_long_def)

lemma clock_bounds: "pll < 4 \<Longrightarrow> 16000000 \<le> clock pll \<and> clock pll \<le> 96000000"
  by (auto simp: clock_eq CKM_nth)

section \<open>The halving loop\<close>

text \<open>
  Started on a positive value below \<open>2 ^ k\<close>, the loop adds to \<open>lg\<close> the position
  \<open>n\<close> of the highest set bit, and the byte counter does not wrap.
\<close>

lemma log2_loop_spec:
  "1 \<le> CV \<Longrightarrow> CV < 2 ^ k \<Longrightarrow> lg + k \<le> 256 \<Longrightarrow>
     \<exists>n. log2_loop CV lg = lg + n \<and> 2 ^ n \<le> CV \<and> CV < 2 ^ (n + 1) \<and> n < k"
proof (induction CV lg arbitrary: k rule: log2_loop.induct)
  case (1 CV lg)
  show ?case
  proof (cases "CV > 1")
    case False
    with "1.prems" have "CV = 1" by simp
    moreover from "1.prems" \<open>CV = 1\<close> have "0 < k" by (cases k) auto
    ultimately show ?thesis by (subst log2_loop.simps) auto
  next
    case True
    from True "1.prems" have k2: "2 \<le> k"
      by (cases k; cases "k - 1") auto
    then obtain k' where k': "k = Suc k'" "1 \<le> k'" by (cases k) auto
    have half: "1 \<le> drop_bit 1 CV" "drop_bit 1 CV < 2 ^ k'"
      using True "1.prems" k' by (auto simp: drop_bit_eq_div)
    have nowrap: "(lg + 1) mod 256 = lg + 1" using "1.prems" k2 by simp
    have "(lg + 1) mod 256 + k' \<le> 256" using "1.prems" k' nowrap by simp
    from "1.IH"[OF True half this] obtain n where
      n: "log2_loop (drop_bit 1 CV) ((lg + 1) mod 256) = (lg + 1) mod 256 + n"
         "2 ^ n \<le> drop_bit 1 CV" "drop_bit 1 CV < 2 ^ (n + 1)" "n < k'" by blast
    have "log2_loop CV lg = lg + (n + 1)"
      using True n(1) nowrap by (subst log2_loop.simps) simp
    moreover have "2 ^ (n + 1) \<le> CV" using n(2) by (simp add: drop_bit_eq_div)
    moreover have "CV < 2 ^ (n + 1 + 1)" using n(3) by (simp add: drop_bit_eq_div)
    moreover have "n + 1 < k" using n(4) k' by simp
    ultimately show ?thesis by blast
  qed
qed

lemma div_le_self_int: "0 \<le> a \<Longrightarrow> 0 < b \<Longrightarrow> a div b \<le> (a::int)"
  using zdiv_mono2 [of a 1 b] by simp

lemma divisor_estimate_eq:
  assumes "0 < Freq" "is_long Freq" "pll < 4"
  shows "divisor_estimate Freq pll = clock pll div Freq div 1024"
    and "0 \<le> divisor_estimate Freq pll"
    and "divisor_estimate Freq pll < 2 ^ 17"
proof -
  have ck: "16000000 \<le> clock pll" "clock pll \<le> 96000000"
    using clock_bounds [OF assms(3)] by simp_all
  have q0: "0 \<le> clock pll div Freq" using ck assms(1) by (simp add: pos_imp_zdiv_nonneg_iff)
  have q1: "clock pll div Freq \<le> clock pll"
    using ck assms(1) by (simp add: div_le_self_int)
  have a: "ldiv (clock pll) Freq = clock pll div Freq"
    using ck assms(1) q0 q1 by (simp add: ldiv_def sdiv_nonneg to_long_id is_long_def)
  have r0: "0 \<le> clock pll div Freq div 1024" using q0 by simp
  have r1: "clock pll div Freq div 1024 \<le> 93750" using q1 ck by simp
  have b: "ldiv (clock pll div Freq) 1024 = clock pll div Freq div 1024"
    using q0 r0 r1 by (simp add: ldiv_def sdiv_nonneg to_long_id is_long_def)
  show e: "divisor_estimate Freq pll = clock pll div Freq div 1024"
    unfolding divisor_estimate_def a b ..
  show "0 \<le> divisor_estimate Freq pll" using r0 e by simp
  show "divisor_estimate Freq pll < 2 ^ 17" using r1 e by simp
qed

lemma log2_byte_zero: "log2_byte 0 = 0"
  by (simp add: log2_byte_def)

lemma log2_byte_pos:
  assumes "1 \<le> CV" "CV < 2 ^ 31"
  shows "\<exists>m. log2_byte CV = m + 1 \<and> log2_loop CV 0 = m \<and> 2 ^ m \<le> CV \<and> CV < 2 ^ (m + 1) \<and> m < 31"
proof -
  from log2_loop_spec [OF assms, of 0] obtain m where
    m: "log2_loop CV 0 = m" "2 ^ m \<le> CV" "CV < 2 ^ (m + 1)" "m < 31" by auto
  have "CV \<noteq> 0" using assms by simp
  then have "log2_byte CV = m + 1" using m(1,4) by (simp add: log2_byte_def)
  with m show ?thesis by blast
qed

lemma log2_byte_spec:
  assumes "0 \<le> CV" "CV < 2 ^ 31"
  shows "CV < 2 ^ log2_byte CV"
    and "CV < 2 ^ n \<Longrightarrow> log2_byte CV \<le> n"
    and "log2_byte CV \<le> 31"
proof -
  have *: "CV < 2 ^ log2_byte CV \<and> (CV < 2 ^ n \<longrightarrow> log2_byte CV \<le> n) \<and> log2_byte CV \<le> 31"
  proof (cases "CV = 0")
    case True
    then show ?thesis by (simp add: log2_byte_zero)
  next
    case False
    with assms have "1 \<le> CV" by simp
    from log2_byte_pos [OF this assms(2)] obtain m where
      m: "log2_byte CV = m + 1" "2 ^ m \<le> CV" "CV < 2 ^ (m + 1)" "m < 31" by auto
    have "m < n" if "CV < 2 ^ n"
    proof -
      from m(2) that have "(2::int) ^ m < 2 ^ n" by linarith
      then show ?thesis by (simp add: power_strict_increasing_iff)
    qed
    then show ?thesis using m by auto
  qed
  show "CV < 2 ^ log2_byte CV" "CV < 2 ^ n \<Longrightarrow> log2_byte CV \<le> n" "log2_byte CV \<le> 31"
    using * by blast+
qed

lemma prescaler_eq: "lg \<le> 14 \<Longrightarrow> prescaler lg = 2 ^ lg"
proof -
  assume "lg \<le> 14"
  then have "(2::int) ^ lg \<le> 2 ^ 14" by (rule power_increasing) simp
  then have le: "(2::int) ^ lg \<le> 16384" by simp
  have pos: "(0::int) < 2 ^ lg" by simp
  have "to_int16 (2 ^ lg) = 2 ^ lg" using le pos by (intro to_int16_id) linarith+
  moreover have "to_unsigned (2 ^ lg) = 2 ^ lg" using le pos by (intro to_unsigned_id) linarith+
  ultimately show ?thesis by (simp add: prescaler_def)
qed

lemma div_less_imp_less_mult:
  assumes "0 < d" "a div d < c"
  shows "a < c * (d::int)"
proof -
  have "a = d * (a div d) + a mod d" by simp
  moreover have "a mod d < d" using assms(1) by simp
  moreover have "d * (a div d) \<le> d * (c - 1)"
    using assms by (intro mult_left_mono) simp_all
  ultimately have "a < d * (c - 1) + d" by linarith
  then show ?thesis by (simp add: algebra_simps)
qed

lemma less_mult_imp_div_less_int:
  assumes "0 < d" "a < c * (d::int)"
  shows "a div d < c"
proof (rule ccontr)
  assume "\<not> a div d < c"
  then have "c \<le> a div d" by simp
  then have "c * d \<le> (a div d) * d" using assms(1) by (intro mult_right_mono) simp_all
  moreover have "(a div d) * d \<le> a" using assms(1)
    by (metis div_mult_mod_eq le_add_same_cancel1 pos_mod_sign)
  ultimately show False using assms(2) by linarith
qed

lemma div_mult_le_int: "0 < d \<Longrightarrow> (a div d) * d \<le> (a::int)"
  by (metis div_mult_mod_eq le_add_same_cancel1 pos_mod_sign)

lemma less_div_succ_mult: "0 < d \<Longrightarrow> (a::int) < (a div d + 1) * d"
  by (rule div_less_imp_less_mult) simp_all

text \<open>The quotient \<open>CK*2/PS/Freq\<close> when the shift comes from the halving loop.\<close>

lemma double_quotient:
  assumes "0 < (Freq::int)" "0 \<le> CK" "lg \<le> 14" "CK div Freq div 1024 < 2 ^ lg"
  shows "0 \<le> CK * 2 div 2 ^ lg div Freq" and "CK * 2 div 2 ^ lg div Freq < 2048"
    and "CK * 2 div 2 ^ lg div Freq = CK * 2 div (2 ^ lg * Freq)"
proof -
  have ps: "(0::int) < 2 ^ lg" by simp
  show e: "CK * 2 div 2 ^ lg div Freq = CK * 2 div (2 ^ lg * Freq)"
    using assms(1) by (simp add: zdiv_zmult2_eq)
  have "CK div Freq < 2 ^ lg * 1024"
    using div_less_imp_less_mult [OF _ assms(4)] by simp
  then have "CK < 2 ^ lg * 1024 * Freq"
    by (rule div_less_imp_less_mult [OF assms(1)])
  moreover have "2 ^ lg * 1024 * Freq = 1024 * (2 ^ lg * Freq)" by (simp add: ac_simps)
  ultimately have "CK * 2 < 2048 * (2 ^ lg * Freq)" by linarith
  moreover have "0 < 2 ^ lg * Freq" using assms(1) by simp
  ultimately have "CK * 2 div (2 ^ lg * Freq) < 2048"
    by (intro less_mult_imp_div_less_int)
  then show "CK * 2 div 2 ^ lg div Freq < 2048" using e by simp
  show "0 \<le> CK * 2 div 2 ^ lg div Freq"
    using assms(1,2) by (simp add: pos_imp_zdiv_nonneg_iff)
qed

lemma reload_count_eq:
  assumes "0 < Freq" "is_long Freq" "pll < 4" "lg \<le> 14" "divisor_estimate Freq pll < 2 ^ lg"
  shows "reload_count Freq pll lg = (clock pll * 2 div 2 ^ lg div Freq + 1) div 2"
    and "0 \<le> reload_count Freq pll lg" and "reload_count Freq pll lg \<le> 1024"
proof -
  define CK where "CK = clock pll"
  define x where "x = CK * 2 div 2 ^ lg div Freq"
  have ck: "16000000 \<le> CK" "CK \<le> 96000000"
    using clock_bounds [OF assms(3)] by (simp_all add: CK_def)
  have cv: "CK div Freq div 1024 < 2 ^ lg"
    using assms(5) divisor_estimate_eq(1) [OF assms(1-3)] by (simp add: CK_def)
  have x: "0 \<le> x" "x < 2048"
    using double_quotient(1,2) [OF assms(1) _ assms(4) cv] ck by (simp_all add: x_def)
  have ps: "prescaler lg = 2 ^ lg" by (rule prescaler_eq [OF assms(4)])
  have ps1: "(0::int) < 2 ^ lg" by simp
  have s1: "lmul CK 2 = CK * 2" using ck by (simp add: lmul_def to_long_id is_long_def)
  have q0: "0 \<le> CK * 2 div 2 ^ lg" using ck by (simp add: pos_imp_zdiv_nonneg_iff)
  have q1: "CK * 2 div 2 ^ lg \<le> CK * 2" using ck by (intro div_le_self_int) simp_all
  have s2: "ldiv (CK * 2) (2 ^ lg) = CK * 2 div 2 ^ lg"
    using ck q0 q1 ps1 by (simp add: ldiv_def sdiv_nonneg to_long_id is_long_def)
  have s3: "ldiv (CK * 2 div 2 ^ lg) Freq = x"
    using q0 assms(1) x by (simp add: ldiv_def sdiv_nonneg to_long_id is_long_def x_def)
  have s4: "ladd x 1 = x + 1" using x by (simp add: ladd_def to_long_id is_long_def)
  have h: "0 \<le> (x + 1) div 2" "(x + 1) div 2 \<le> 1024" using x by simp_all
  have s5: "ldiv (x + 1) 2 = (x + 1) div 2"
    using x h by (simp add: ldiv_def sdiv_nonneg to_long_id is_long_def)
  have s6: "to_unsigned ((x + 1) div 2) = (x + 1) div 2"
    using h by (simp add: to_unsigned_id)
  have "reload_count Freq pll lg = (x + 1) div 2"
    unfolding reload_count_def CK_def [symmetric] ps s1 s2 s3 s4 s5 s6 ..
  then show "reload_count Freq pll lg = (clock pll * 2 div 2 ^ lg div Freq + 1) div 2"
    and "0 \<le> reload_count Freq pll lg" and "reload_count Freq pll lg \<le> 1024"
    using h by (simp_all add: x_def CK_def)
qed

lemma abs_sdiv_pos: "0 < m \<Longrightarrow> \<bar>d sdiv m\<bar> = \<bar>d\<bar> div (m::int)"
  by (simp add: signed_divide_int_def abs_mult sgn_if pos_imp_zdiv_nonneg_iff)

lemma shift_count_product:
  assumes "lg \<le> 14" "0 \<le> cnt" "cnt \<le> 1023"
  shows "0 \<le> 2 ^ lg * cnt" and "2 ^ lg * cnt \<le> (16760832::int)"
proof -
  have "(2::int) ^ lg \<le> 2 ^ 14" using assms(1) by (intro power_increasing) simp_all
  then have "(2::int) ^ lg * cnt \<le> 2 ^ 14 * 1023"
    using assms(2,3) by (intro mult_mono) simp_all
  then show "2 ^ lg * cnt \<le> (16760832::int)" by simp
  show "0 \<le> 2 ^ lg * cnt" using assms(2) by simp
qed

text \<open>
  Rounding the quotient to the nearest count keeps the product \<open>PS * cnt * Freq\<close>
  within half a step \<open>PS * Freq\<close> of twice the clock.
\<close>

lemma rounded_count_window:
  assumes "0 < P" "cnt = (CK2 div P + 1) div 2"
  shows "2 * (P * cnt) - P \<le> CK2" and "CK2 < 2 * (P * cnt) + (P::int)"
proof -
  define x where "x = CK2 div P"
  have lo: "x * P \<le> CK2" unfolding x_def by (rule div_mult_le_int [OF assms(1)])
  have hi: "CK2 < (x + 1) * P" unfolding x_def by (rule less_div_succ_mult [OF assms(1)])
  have c: "2 * cnt - 1 \<le> x" "x \<le> 2 * cnt" using assms(2) by (simp_all add: x_def)
  have "(2 * cnt - 1) * P \<le> x * P" using c(1) assms(1) by (intro mult_right_mono) simp_all
  with lo show "2 * (P * cnt) - P \<le> CK2" by (simp add: algebra_simps)
  have "(x + 1) * P \<le> (2 * cnt + 1) * P" using c(2) assms(1) by (intro mult_right_mono) simp_all
  with hi show "CK2 < 2 * (P * cnt) + P" by (simp add: algebra_simps)
qed

lemma error_score_eq:
  assumes "0 < Freq" "is_long Freq" "pll < 4" "lg \<le> 14" "divisor_estimate Freq pll < 2 ^ lg"
    and "cnt = reload_count Freq pll lg" "4 \<le> cnt" "cnt \<le> 1023"
  shows "error_score Freq pll lg cnt = \<bar>clock pll - 2 ^ lg * cnt * Freq\<bar> div CKM ! pll"
    and "0 \<le> error_score Freq pll lg cnt" and "error_score Freq pll lg cnt < 0x7FFFFFFF"
    and "is_long (2 ^ lg * cnt * Freq)" and "is_long (clock pll - 2 ^ lg * cnt * Freq)"
proof -
  define CK where "CK = clock pll"
  define P where "P = 2 ^ lg * Freq"
  define Q where "Q = 2 ^ lg * cnt * Freq"
  define m where "m = CKM ! pll"
  have ck: "16000000 \<le> CK" "CK \<le> 96000000"
    using clock_bounds [OF assms(3)] by (simp_all add: CK_def)
  have m: "1 \<le> m" "m \<le> 6" using assms(3) by (auto simp: m_def CKM_nth)
  have P: "0 < P" using assms(1) by (simp add: P_def)
  have cnt: "cnt = (CK * 2 div P + 1) div 2"
    using reload_count_eq(1) [OF assms(1-5)] assms(1,6)
    by (simp add: CK_def P_def zdiv_zmult2_eq)
  have QP: "Q = P * cnt" by (simp add: Q_def P_def ac_simps)
  have win: "2 * Q - P \<le> CK * 2" "CK * 2 < 2 * Q + P"
    using rounded_count_window [OF P cnt] by (simp_all add: QP)
  have "P * 4 \<le> P * cnt" using P assms(7) by (intro mult_left_mono) simp_all
  then have P4: "4 * P \<le> Q" by (simp add: QP)
  have Q: "0 \<le> Q" "Q \<le> 110000000" using win P4 P ck by linarith+
  have d: "- 16000000 \<le> CK - Q" "CK - Q \<le> 96000000" using win P4 P ck by linarith+
  have pc: "0 \<le> 2 ^ lg * cnt" "2 ^ lg * cnt \<le> 16760832"
    using shift_count_product [OF assms(4) _ assms(8)] assms(7) by simp_all
  have s1: "lmul (prescaler lg) cnt = 2 ^ lg * cnt"
    using pc by (simp add: prescaler_eq [OF assms(4)] lmul_def to_long_id is_long_def)
  have s2: "lmul (2 ^ lg * cnt) Freq = Q"
    using Q by (simp add: lmul_def to_long_id is_long_def Q_def)
  have s3: "lsub CK Q = CK - Q" using d by (simp add: lsub_def to_long_id is_long_def)
  have a: "\<bar>(CK - Q) sdiv m\<bar> = \<bar>CK - Q\<bar> div m" using m by (simp add: abs_sdiv_pos)
  have "\<bar>CK - Q\<bar> div m \<le> \<bar>CK - Q\<bar>" using m by (intro div_le_self_int) simp_all
  with a d have b: "\<bar>(CK - Q) sdiv m\<bar> \<le> 96000000" by linarith
  then have b2: "- 96000000 \<le> (CK - Q) sdiv m" "(CK - Q) sdiv m \<le> 96000000" by linarith+
  have s4: "ldiv (CK - Q) m = (CK - Q) sdiv m"
    using b2 by (simp add: ldiv_def to_long_id is_long_def)
  have s5: "lneg ((CK - Q) sdiv m) = - ((CK - Q) sdiv m)"
    using b2 by (simp add: lneg_def to_long_id is_long_def)
  have "error_score Freq pll lg cnt = \<bar>(CK - Q) sdiv m\<bar>"
    unfolding error_score_def CK_def [symmetric] m_def [symmetric] s1 s2 s3 s4 Let_def s5
    by simp
  then have e: "error_score Freq pll lg cnt = \<bar>CK - Q\<bar> div m" using a by simp
  then show "error_score Freq pll lg cnt = \<bar>clock pll - 2 ^ lg * cnt * Freq\<bar> div CKM ! pll"
    by (simp add: CK_def Q_def m_def)
  show "0 \<le> error_score Freq pll lg cnt" using e a by simp
  show "error_score Freq pll lg cnt < 0x7FFFFFFF" using e a b by simp
  show "is_long (2 ^ lg * cnt * Freq)" using Q by (simp add: is_long_def Q_def)
  show "is_long (clock pll - 2 ^ lg * cnt * Freq)" using d by (simp add: is_long_def Q_def CK_def)
qed

lemma actual_frequency_eq:
  assumes "svPLL sv < 4" "svLG sv \<le> 14" "4 \<le> svCNT sv" "svCNT sv \<le> 1023"
  shows "actual_frequency sv =
           (F_CPU * CKM ! svPLL sv * 2 div (2 ^ svLG sv * svCNT sv) + 1) div 2"
    and "1 \<le> actual_frequency sv" and "is_long (actual_frequency sv)"
proof -
  define CK where "CK = clock (svPLL sv)"
  define D where "D = 2 ^ svLG sv * svCNT sv"
  have ck: "16000000 \<le> CK" "CK \<le> 96000000"
    using clock_bounds [OF assms(1)] by (simp_all add: CK_def)
  have ckm: "CK = F_CPU * CKM ! svPLL sv"
    using clock_eq [OF assms(1)] by (simp add: CK_def F_CPU_def)
  have D: "4 \<le> D" "D \<le> 16760832"
  proof -
    show "D \<le> 16760832"
      using shift_count_product(2) [OF assms(2) _ assms(4)] assms(3) by (simp add: D_def)
    have "1 * 4 \<le> 2 ^ svLG sv * svCNT sv" using assms(3) by (intro mult_mono) simp_all
    then show "4 \<le> D" by (simp add: D_def)
  qed
  have sh: "to_long (to_int16 (push_bit (svLG sv) 1)) = 2 ^ svLG sv"
  proof -
    have "(2::int) ^ svLG sv \<le> 2 ^ 14" using assms(2) by (intro power_increasing) simp_all
    then have le: "(2::int) ^ svLG sv \<le> 16384" by simp
    have pos: "(0::int) < 2 ^ svLG sv" by simp
    have "to_int16 (2 ^ svLG sv) = 2 ^ svLG sv" using le pos by (intro to_int16_id) linarith+
    moreover have "is_long (2 ^ svLG sv)" using le pos unfolding is_long_def by linarith
    then have "to_long (2 ^ svLG sv) = 2 ^ svLG sv" by (rule to_long_id)
    ultimately show ?thesis by simp
  qed
  have s0: "to_long (svCNT sv) = svCNT sv" using assms(3,4) by (simp add: to_long_id is_long_def)
  have s1: "lmul (2 ^ svLG sv) (svCNT sv) = D"
    using D by (simp add: lmul_def to_long_id is_long_def D_def)
  have s2: "lmul CK 2 = CK * 2" using ck by (simp add: lmul_def to_long_id is_long_def)
  have q0: "1 \<le> CK * 2 div D"
    using pos_imp_zdiv_pos_iff [of D "CK * 2"] D ck by simp
  have q1: "CK * 2 div D \<le> CK * 2" using ck D by (intro div_le_self_int) simp_all
  have s3: "ldiv (CK * 2) D = CK * 2 div D"
    using q0 q1 ck D by (simp add: ldiv_def sdiv_nonneg to_long_id is_long_def)
  have s4: "ladd (CK * 2 div D) 1 = CK * 2 div D + 1"
    using q0 q1 ck by (simp add: ladd_def to_long_id is_long_def)
  have h: "1 \<le> (CK * 2 div D + 1) div 2" "(CK * 2 div D + 1) div 2 \<le> 192000000"
    using q0 q1 ck by simp_all
  have s5: "ldiv (CK * 2 div D + 1) 2 = (CK * 2 div D + 1) div 2"
    using h q0 by (simp add: ldiv_def sdiv_nonneg to_long_id is_long_def)
  have e: "actual_frequency sv = (CK * 2 div D + 1) div 2"
    unfolding actual_frequency_def clock_def [symmetric] CK_def [symmetric] sh s0 s1 s2 s3 s4 s5 ..
  then show "actual_frequency sv =
           (F_CPU * CKM ! svPLL sv * 2 div (2 ^ svLG sv * svCNT sv) + 1) div 2"
    by (simp add: ckm D_def)
  show "1 \<le> actual_frequency sv" using e h by simp
  show "is_long (actual_frequency sv)" using e h by (simp add: is_long_def)
qed

section \<open>The loop over the clock sources\<close>

lemma evaluate_CandidateD:
  assumes "evaluate Freq pll = Candidate lg cnt dif"
  shows "pll \<noteq> 1" and "lg = prescale_shift Freq pll" and "lg \<le> 14"
    and "cnt = reload_count Freq pll lg" and "4 \<le> cnt" and "cnt \<le> 1023"
    and "dif = error_score Freq pll lg cnt"
  using assms by (auto simp: evaluate_def Let_def split: if_splits)

lemma prescale_shift_covers:
  assumes "0 < Freq" "is_long Freq" "pll < 4"
  shows "divisor_estimate Freq pll < 2 ^ prescale_shift Freq pll"
  unfolding prescale_shift_def
  using divisor_estimate_eq(2,3) [OF assms]
  by (intro log2_byte_spec(1)) simp_all

lemma candidate_score_bounds:
  assumes "0 < Freq" "is_long Freq" "pll < 4" "evaluate Freq pll = Candidate lg cnt dif"
  shows "0 \<le> dif" and "dif < 0x7FFFFFFF"
proof -
  note c = evaluate_CandidateD [OF assms(4)]
  have cov: "divisor_estimate Freq pll < 2 ^ lg"
    using prescale_shift_covers [OF assms(1-3)] c(2) by simp
  show "0 \<le> dif"
    using error_score_eq(2) [OF assms(1-3) c(3) cov c(4,5,6)] c(7) by simp
  show "dif < 0x7FFFFFFF"
    using error_score_eq(3) [OF assms(1-3) c(3) cov c(4,5,6)] c(7) by simp
qed

lemma loop_body_cases:
  "loop_body Freq pll sv = sv \<or>
     (svDIF (loop_body Freq pll sv) < svDIF sv \<and> svPLL (loop_body Freq pll sv) = pll \<and>
      evaluate Freq pll = Candidate (svLG (loop_body Freq pll sv))
        (svCNT (loop_body Freq pll sv)) (svDIF (loop_body Freq pll sv)))"
  by (cases "evaluate Freq pll") (simp_all add: loop_body_def)

lemma loop_body_le: "svDIF (loop_body Freq pll sv) \<le> svDIF sv"
  using loop_body_cases [of Freq pll sv] by auto

lemma loop_body_min:
  "evaluate Freq pll = Candidate lg cnt dif \<Longrightarrow> svDIF (loop_body Freq pll sv) \<le> dif"
  by (simp add: loop_body_def)

lemma fold_loop_le: "svDIF (fold (loop_body Freq) ps sv) \<le> svDIF sv"
proof (induction ps arbitrary: sv)
  case Nil
  show ?case by simp
next
  case (Cons p ps)
  have "svDIF (fold (loop_body Freq) ps (loop_body Freq p sv)) \<le> svDIF (loop_body Freq p sv)"
    by (rule Cons.IH)
  also have "\<dots> \<le> svDIF sv" by (rule loop_body_le)
  finally show ?case by simp
qed

lemma fold_loop_min:
  "p \<in> set ps \<Longrightarrow> evaluate Freq p = Candidate lg cnt dif \<Longrightarrow>
     svDIF (fold (loop_body Freq) ps sv) \<le> dif"
proof (induction ps arbitrary: sv)
  case Nil
  then show ?case by simp
next
  case (Cons a ps)
  show ?case
  proof (cases "p = a")
    case True
    have "svDIF (fold (loop_body Freq) ps (loop_body Freq a sv)) \<le> svDIF (loop_body Freq a sv)"
      by (rule fold_loop_le)
    also have "\<dots> \<le> dif" using Cons.prems(2) True by (simp add: loop_body_min)
    finally show ?thesis by simp
  next
    case False
    with Cons.prems have "p \<in> set ps" by simp
    from Cons.IH [OF this Cons.prems(2)] show ?thesis by simp
  qed
qed

text \<open>
  Either the loop leaves the saved setting alone, or the saved setting is the candidate
  of one of the clock sources visited, strictly better than the setting the loop
  started with, and no earlier clock source has a candidate with the same score.
\<close>

lemma fold_loop_choice:
  assumes "sorted_wrt (<) ps"
  shows "fold (loop_body Freq) ps sv = sv \<or>
     (svDIF (fold (loop_body Freq) ps sv) < svDIF sv \<and>
      svPLL (fold (loop_body Freq) ps sv) \<in> set ps \<and>
      evaluate Freq (svPLL (fold (loop_body Freq) ps sv)) =
        Candidate (svLG (fold (loop_body Freq) ps sv)) (svCNT (fold (loop_body Freq) ps sv))
          (svDIF (fold (loop_body Freq) ps sv)) \<and>
      (\<forall>q \<in> set ps. \<forall>lg cnt. evaluate Freq q
            = Candidate lg cnt (svDIF (fold (loop_body Freq) ps sv))
          \<longrightarrow> svPLL (fold (loop_body Freq) ps sv) \<le> q))"
  using assms
proof (induction ps arbitrary: sv)
  case Nil
  show ?case by simp
next
  case (Cons p ps)
  define s1 where "s1 = loop_body Freq p sv"
  define r where "r = fold (loop_body Freq) ps s1"
  have r: "fold (loop_body Freq) (p # ps) sv = r" by (simp add: r_def s1_def)
  have sorted: "sorted_wrt (<) ps" and first: "\<forall>q \<in> set ps. p < q"
    using Cons.prems by simp_all
  have step: "s1 = sv \<or> (svDIF s1 < svDIF sv \<and> svPLL s1 = p \<and>
      evaluate Freq p = Candidate (svLG s1) (svCNT s1) (svDIF s1))"
    unfolding s1_def by (rule loop_body_cases)
  have s1_le: "svDIF s1 \<le> svDIF sv" unfolding s1_def by (rule loop_body_le)
  have s1_min: "svDIF s1 \<le> d" if "evaluate Freq p = Candidate l c d" for l c d
    unfolding s1_def using that by (rule loop_body_min)
  from Cons.IH [OF sorted, of s1]
  have ih: "r = s1 \<or> (svDIF r < svDIF s1 \<and> svPLL r \<in> set ps \<and>
      evaluate Freq (svPLL r) = Candidate (svLG r) (svCNT r) (svDIF r) \<and>
      (\<forall>q \<in> set ps. \<forall>lg cnt. evaluate Freq q = Candidate lg cnt (svDIF r) \<longrightarrow> svPLL r \<le> q))"
    by (simp add: r_def)
  have "r = sv \<or> (svDIF r < svDIF sv \<and> svPLL r \<in> set (p # ps) \<and>
      evaluate Freq (svPLL r) = Candidate (svLG r) (svCNT r) (svDIF r) \<and>
      (\<forall>q \<in> set (p # ps). \<forall>lg cnt. evaluate Freq q = Candidate lg cnt (svDIF r)
          \<longrightarrow> svPLL r \<le> q))"
  proof (cases "r = s1")
    case True
    show ?thesis
    proof (cases "s1 = sv")
      case True
      with \<open>r = s1\<close> show ?thesis by simp
    next
      case False
      with step have "svDIF s1 < svDIF sv" "svPLL s1 = p"
        "evaluate Freq p = Candidate (svLG s1) (svCNT s1) (svDIF s1)" by simp_all
      with \<open>r = s1\<close> first show ?thesis by (auto intro: less_imp_le)
    qed
  next
    case False
    with ih have b: "svDIF r < svDIF s1" "svPLL r \<in> set ps"
      "evaluate Freq (svPLL r) = Candidate (svLG r) (svCNT r) (svDIF r)"
      "\<forall>q \<in> set ps. \<forall>lg cnt. evaluate Freq q = Candidate lg cnt (svDIF r) \<longrightarrow> svPLL r \<le> q"
      by simp_all
    have "evaluate Freq p \<noteq> Candidate l c (svDIF r)" for l c
      using s1_min [of l c "svDIF r"] b(1) by auto
    with b s1_le show ?thesis by auto
  qed
  then show ?case unfolding r .
qed

lemma search_choice:
  "search Freq = locals0\<lparr>svDIF := 0x7FFFFFFF\<rparr> \<or>
     (svDIF (search Freq) < 0x7FFFFFFF \<and> svPLL (search Freq) < 4 \<and>
      evaluate Freq (svPLL (search Freq)) =
        Candidate (svLG (search Freq)) (svCNT (search Freq)) (svDIF (search Freq)) \<and>
      (\<forall>q < 4. \<forall>lg cnt. evaluate Freq q = Candidate lg cnt (svDIF (search Freq))
          \<longrightarrow> svPLL (search Freq) \<le> q))"
proof -
  have s: "sorted_wrt (<) [0..<length CKM]" by simp
  have m: "set [0..<length CKM] = {q. q < 4}" by (auto simp: CKM_def)
  show ?thesis
    using fold_loop_choice [OF s, of Freq "locals0\<lparr>svDIF := 0x7FFFFFFF\<rparr>"]
    unfolding search_def [symmetric] m by (simp add: locals0_def)
qed

lemma search_min:
  assumes "pll < 4" "evaluate Freq pll = Candidate lg cnt dif"
  shows "svDIF (search Freq) \<le> dif"
proof -
  have "pll \<in> set [0..<length CKM]" unfolding set_upt using assms(1) by (simp add: CKM_def)
  then show ?thesis unfolding search_def using assms(2) by (rule fold_loop_min)
qed

lemma search_found_iff:
  assumes "0 < Freq" "is_long Freq"
  shows "svDIF (search Freq) < 0x7FFFFFFF \<longleftrightarrow>
           (\<exists>pll < 4. \<exists>lg cnt dif. evaluate Freq pll = Candidate lg cnt dif)"
proof
  assume "svDIF (search Freq) < 0x7FFFFFFF"
  then have "search Freq \<noteq> locals0\<lparr>svDIF := 0x7FFFFFFF\<rparr>" by auto
  with search_choice [of Freq] show "\<exists>pll < 4. \<exists>lg cnt dif. evaluate Freq pll = Candidate lg cnt dif"
    by blast
next
  assume "\<exists>pll < 4. \<exists>lg cnt dif. evaluate Freq pll = Candidate lg cnt dif"
  then obtain pll lg cnt dif where c: "pll < 4" "evaluate Freq pll = Candidate lg cnt dif"
    by blast
  have "svDIF (search Freq) \<le> dif" by (rule search_min [OF c])
  also have "dif < 0x7FFFFFFF" by (rule candidate_score_bounds(2) [OF assms c])
  finally show "svDIF (search Freq) < 0x7FFFFFFF" .
qed

section \<open>What \<open>set\<close> does with a positive frequency\<close>

lemma length_CKM: "length CKM = 4"
  by (simp add: CKM_def)

lemma program_timer_FreqGenVal: "FreqGenVal (program_timer sv g) = FreqGenVal g"
  by (simp add: program_timer_def Let_def)

lemma set_freq_found:
  assumes "0 < Freq" "svDIF (search Freq) < 0x7FFFFFFF"
  shows "set_freq Freq g = (actual_frequency (search Freq),
           program_timer (search Freq) (g\<lparr>FreqGenVal := actual_frequency (search Freq)\<rparr>))"
  using assms by (simp add: set_freq_def Let_def program_timer_FreqGenVal)

lemma set_freq_not_found:
  assumes "0 < Freq" "\<not> svDIF (search Freq) < 0x7FFFFFFF"
  shows "set_freq Freq g = (- 1, g)"
  using assms by (simp add: set_freq_def Let_def)

lemma search_winner:
  assumes "svDIF (search Freq) < 0x7FFFFFFF"
  shows "svPLL (search Freq) < 4" and "svPLL (search Freq) \<noteq> 1" and "svLG (search Freq) \<le> 14"
    and "4 \<le> svCNT (search Freq)" and "svCNT (search Freq) \<le> 1023"
    and "evaluate Freq (svPLL (search Freq)) =
        Candidate (svLG (search Freq)) (svCNT (search Freq)) (svDIF (search Freq))"
proof -
  from assms have "search Freq \<noteq> locals0\<lparr>svDIF := 0x7FFFFFFF\<rparr>" by auto
  with search_choice [of Freq]
  show "svPLL (search Freq) < 4" and c: "evaluate Freq (svPLL (search Freq)) =
        Candidate (svLG (search Freq)) (svCNT (search Freq)) (svDIF (search Freq))"
    by blast+
  show "svPLL (search Freq) \<noteq> 1" "svLG (search Freq) \<le> 14"
    "4 \<le> svCNT (search Freq)" "svCNT (search Freq) \<le> 1023"
    using evaluate_CandidateD [OF c] by simp_all
qed

lemma set_freq_success_iff:
  assumes "0 < Freq"
  shows "fst (set_freq Freq g) \<noteq> - 1 \<longleftrightarrow> svDIF (search Freq) < 0x7FFFFFFF"
proof (cases "svDIF (search Freq) < 0x7FFFFFFF")
  case True
  have "1 \<le> actual_frequency (search Freq)"
    using search_winner(1,3,4,5) [OF True] by (rule actual_frequency_eq(2))
  then show ?thesis using True by (simp add: set_freq_found [OF assms True])
next
  case False
  then show ?thesis by (simp add: set_freq_not_found [OF assms False])
qed

lemma evaluate_Candidate_iff:
  "(\<exists>lg cnt dif. evaluate Freq pll = Candidate lg cnt dif) \<longleftrightarrow>
     pll \<noteq> 1 \<and> prescale_shift Freq pll \<le> 14 \<and>
     4 \<le> reload_count Freq pll (prescale_shift Freq pll) \<and>
     reload_count Freq pll (prescale_shift Freq pll) \<le> 1023"
  by (auto simp: evaluate_def Let_def)

section \<open>Concrete runs\<close>

lemma run_1MHz:
  "set_freq 1000000 new_generator = (1000000,
     \<lparr>FreqGenVal = 1000000, TCCR4A = {PWM4A, COM4A0}, TCCR4B = 1, TCCR4D = 0, PLLFRQ = 0x4A,
      TCNT4H = 0, OCR4C = 15, OCR4A = 7, pin5 = OUTPUT\<rparr>)"
  by code_simp

lemma search_1MHz: "search 1000000 = \<lparr>svPLL = 0, svLG = 0, svCNT = 16, svDIF = 0\<rparr>"
  by code_simp

lemma evaluate_1MHz:
  "evaluate 1000000 0 = Candidate 0 16 0" "evaluate 1000000 2 = Candidate 0 64 0"
  "evaluate 1000000 3 = Candidate 0 48 0"
  by code_simp+

lemma run_15626:
  "set_freq 15626 new_generator = (15625,
     \<lparr>FreqGenVal = 15625, TCCR4A = {PWM4A, COM4A0}, TCCR4B = 3, TCCR4D = 0, PLLFRQ = 0x7A,
      TCNT4H = 1, OCR4C = 255, OCR4A = 127, pin5 = OUTPUT\<rparr>)"
  by code_simp

lemma search_15626: "search 15626 = \<lparr>svPLL = 3, svLG = 2, svCNT = 768, svDIF = 1024\<rparr>"
  by code_simp

lemma run_50MHz_after_1MHz:
  "set_freq 50000000 (snd (set_freq 1000000 new_generator))
     = (- 1, snd (set_freq 1000000 new_generator))"
  by code_simp

lemma evaluate_count_boundaries:
  "evaluate 4000000 0 = Candidate 0 4 0" "reload_count 4000000 0 0 = 4"
  "evaluate 5000000 0 = Rejected_count" "reload_count 5000000 0 0 = 3"
  "evaluate 15640 0 = Candidate 0 1023 280" "reload_count 15640 0 0 = 1023"
  "evaluate 15626 0 = Rejected_count" "reload_count 15626 0 0 = 1024"
  "prescale_shift 4000000 0 = 0" "prescale_shift 5000000 0 = 0"
  "prescale_shift 15640 0 = 0" "prescale_shift 15626 0 = 0"
  by code_simp+

lemma evaluate_1Hz:
  "evaluate 1 0 = Candidate 14 977 7168" "prescale_shift 1 0 = 14"
  "evaluate 1 2 = Rejected_clock" "prescale_shift 1 2 = 16" "log2_loop 62500 0 = 15"
  by code_simp+

lemma evaluate_15626: "evaluate 15626 3 = Candidate 2 768 1024"
  by code_simp

section \<open>The best candidate\<close>

text \<open>
  C1: when \<open>set(f)\<close> succeeds for a positive \<open>f\<close>, the setting it applies is the
  candidate of the chosen clock source, its error score is minimal among the candidates
  of all clock sources (one per source that passes the shift and count checks), and
  among candidates with that minimal score the chosen clock index is the lowest,
  since the saved setting is replaced only on a strictly smaller score.
\<close>

theorem set_applies_first_minimum:
  assumes "0 < Freq" "fst (set_freq Freq g) \<noteq> - 1"
  shows "snd (set_freq Freq g) =
           program_timer (search Freq) (g\<lparr>FreqGenVal := actual_frequency (search Freq)\<rparr>)
     \<and> evaluate Freq (svPLL (search Freq)) =
           Candidate (svLG (search Freq)) (svCNT (search Freq)) (svDIF (search Freq))
     \<and> (\<forall>pll < length CKM. \<forall>lg cnt dif. evaluate Freq pll = Candidate lg cnt dif \<longrightarrow>
           svDIF (search Freq) \<le> dif \<and> (dif = svDIF (search Freq) \<longrightarrow> svPLL (search Freq) \<le> pll))"
proof -
  have found: "svDIF (search Freq) < 0x7FFFFFFF"
    using assms by (simp add: set_freq_success_iff)
  then have ne: "search Freq \<noteq> locals0\<lparr>svDIF := 0x7FFFFFFF\<rparr>" by auto
  have tie: "svPLL (search Freq) \<le> q"
    if "q < 4" "evaluate Freq q = Candidate lg cnt (svDIF (search Freq))" for q lg cnt
    using search_choice [of Freq] ne that by blast
  have "svDIF (search Freq) \<le> dif \<and> (dif = svDIF (search Freq) \<longrightarrow> svPLL (search Freq) \<le> pll)"
    if "pll < length CKM" "evaluate Freq pll = Candidate lg cnt dif" for pll lg cnt dif
  proof -
    have p: "pll < 4" using that(1) by (simp add: length_CKM)
    show ?thesis using search_min [OF p that(2)] tie [OF p] that(2) by auto
  qed
  then show ?thesis
    using search_winner(6) [OF found] by (simp add: set_freq_found [OF assms(1) found])
qed

theorem set_applies_first_minimum_witness:
  "(0::int) < 1000000 \<and> fst (set_freq 1000000 new_generator) \<noteq> - 1
     \<and> evaluate 1000000 0 = Candidate 0 16 0 \<and> evaluate 1000000 2 = Candidate 0 64 0
     \<and> svDIF (search 1000000) \<le> 0 \<and> svPLL (search 1000000) \<le> 0
     \<and> svPLL (search 1000000) \<le> 2"
proof -
  have h: "(0::int) < 1000000" "fst (set_freq 1000000 new_generator) \<noteq> - 1"
    by (simp_all add: run_1MHz)
  have a: "(0::nat) < length CKM" "(2::nat) < length CKM" by (simp_all add: length_CKM)
  have s: "svDIF (search 1000000) = 0" by (simp add: search_1MHz)
  from set_applies_first_minimum [OF h] a evaluate_1MHz(1,2) s
  have "svDIF (search 1000000) \<le> 0 \<and> svPLL (search 1000000) \<le> 0 \<and> svPLL (search 1000000) \<le> 2"
    by (metis order_refl)
  with h evaluate_1MHz(1,2) show ?thesis by simp
qed

section \<open>Failure of the search\<close>

text \<open>
  C2: for a positive \<open>f\<close>, \<open>set(f)\<close> returns the sentinel \<open>-1\<close> exactly when no
  clock source other than index 1 has both a prescaler shift of at most 14 and a reload
  count between 4 and 1023; and when it returns the sentinel, the object and the
  timer registers are as before the call, so \<open>read()\<close> returns what it returned before.
\<close>

theorem set_fails_iff_no_candidate:
  assumes "0 < Freq" "is_long Freq"
  shows "(fst (set_freq Freq g) = - 1 \<longleftrightarrow>
           \<not> (\<exists>pll < length CKM. pll \<noteq> 1 \<and> prescale_shift Freq pll \<le> 14 \<and>
                4 \<le> reload_count Freq pll (prescale_shift Freq pll) \<and>
                reload_count Freq pll (prescale_shift Freq pll) \<le> 1023))
     \<and> (fst (set_freq Freq g) = - 1 \<longrightarrow>
           snd (set_freq Freq g) = g \<and> read (snd (set_freq Freq g)) = read g)"
proof -
  have "fst (set_freq Freq g) = - 1 \<longleftrightarrow> \<not> svDIF (search Freq) < 0x7FFFFFFF"
    using set_freq_success_iff [OF assms(1), of g] by blast
  also have "\<dots> \<longleftrightarrow> \<not> (\<exists>pll < 4. \<exists>lg cnt dif. evaluate Freq pll = Candidate lg cnt dif)"
    by (simp only: search_found_iff [OF assms])
  also have "\<dots> \<longleftrightarrow> \<not> (\<exists>pll < length CKM. pll \<noteq> 1 \<and> prescale_shift Freq pll \<le> 14 \<and>
                4 \<le> reload_count Freq pll (prescale_shift Freq pll) \<and>
                reload_count Freq pll (prescale_shift Freq pll) \<le> 1023)"
    by (simp only: evaluate_Candidate_iff length_CKM)
  finally have first: "fst (set_freq Freq g) = - 1 \<longleftrightarrow>
           \<not> (\<exists>pll < length CKM. pll \<noteq> 1 \<and> prescale_shift Freq pll \<le> 14 \<and>
                4 \<le> reload_count Freq pll (prescale_shift Freq pll) \<and>
                reload_count Freq pll (prescale_shift Freq pll) \<le> 1023)" .
  have second: "snd (set_freq Freq g) = g \<and> read (snd (set_freq Freq g)) = read g"
    if "fst (set_freq Freq g) = - 1"
  proof -
    from that have "\<not> svDIF (search Freq) < 0x7FFFFFFF"
      using set_freq_success_iff [OF assms(1), of g] by blast
    then show ?thesis by (simp add: set_freq_not_found [OF assms(1)])
  qed
  from first second show ?thesis by blast
qed

theorem set_fails_iff_no_candidate_witness:
  "(0::int) < 50000000 \<and> is_long 50000000
     \<and> fst (set_freq 50000000 (snd (set_freq 1000000 new_generator))) = - 1
     \<and> snd (set_freq 50000000 (snd (set_freq 1000000 new_generator)))
         = snd (set_freq 1000000 new_generator)
     \<and> read (snd (set_freq 50000000 (snd (set_freq 1000000 new_generator)))) = 1000000"
proof -
  have h: "(0::int) < 50000000" "is_long 50000000" by (simp_all add: is_long_def)
  have f: "fst (set_freq 50000000 (snd (set_freq 1000000 new_generator))) = - 1"
    by (simp add: run_50MHz_after_1MHz)
  have r: "read (snd (set_freq 1000000 new_generator)) = 1000000"
    by (simp add: run_1MHz read_def)
  from set_fails_iff_no_candidate [OF h, of "snd (set_freq 1000000 new_generator)"] f
  have "snd (set_freq 50000000 (snd (set_freq 1000000 new_generator)))
          = snd (set_freq 1000000 new_generator)
      \<and> read (snd (set_freq 50000000 (snd (set_freq 1000000 new_generator))))
          = read (snd (set_freq 1000000 new_generator))"
    by blast
  with h f r show ?thesis by simp
qed

section \<open>The frequency reported\<close>

text \<open>
  C3: after a successful \<open>set(f)\<close> with \<open>f > 0\<close>, the value returned is the
  round-half-up frequency \<open>((F_CPU * m * 2) / (PS * count) + 1) / 2\<close> of the winning
  setting (multiplier \<open>m\<close>, prescaler \<open>PS = 2 ^ shift\<close>), in truncating integer
  division (all operands are positive, so \<open>div\<close> and \<open>sdiv\<close> agree), and a following
  \<open>read()\<close> returns that same value.
\<close>

theorem set_returns_rounded_frequency:
  assumes "0 < Freq" "fst (set_freq Freq g) \<noteq> - 1"
  shows "fst (set_freq Freq g) =
           (F_CPU * CKM ! svPLL (search Freq) * 2
              div (2 ^ svLG (search Freq) * svCNT (search Freq)) + 1) div 2
     \<and> fst (set_freq Freq g) =
           (F_CPU * CKM ! svPLL (search Freq) * 2
              sdiv (2 ^ svLG (search Freq) * svCNT (search Freq)) + 1) sdiv 2
     \<and> read (snd (set_freq Freq g)) = fst (set_freq Freq g)"
proof -
  define sv where "sv = search Freq"
  have found: "svDIF (search Freq) < 0x7FFFFFFF"
    using assms by (simp add: set_freq_success_iff)
  note w = search_winner [OF found, folded sv_def]
  have ret: "fst (set_freq Freq g) = actual_frequency sv"
    and rd: "read (snd (set_freq Freq g)) = actual_frequency sv"
    by (simp_all add: set_freq_found [OF assms(1) found] read_def program_timer_FreqGenVal sv_def)
  have e: "actual_frequency sv = (F_CPU * CKM ! svPLL sv * 2 div (2 ^ svLG sv * svCNT sv) + 1) div 2"
    using w(1,3,4,5) by (rule actual_frequency_eq(1))
  have m: "0 < CKM ! svPLL sv" using w(1) by (simp add: CKM_nth)
  have num: "0 \<le> F_CPU * CKM ! svPLL sv * 2" using m by (simp add: F_CPU_def)
  have den: "0 < 2 ^ svLG sv * svCNT sv" using w(4) by simp
  have q: "0 \<le> F_CPU * CKM ! svPLL sv * 2 div (2 ^ svLG sv * svCNT sv)"
    using num den by (simp add: pos_imp_zdiv_nonneg_iff)
  have s: "(F_CPU * CKM ! svPLL sv * 2 sdiv (2 ^ svLG sv * svCNT sv) + 1) sdiv 2
         = (F_CPU * CKM ! svPLL sv * 2 div (2 ^ svLG sv * svCNT sv) + 1) div 2"
    using q by (simp add: sdiv_nonneg [OF num den] sdiv_nonneg)
  show ?thesis using ret rd e s by (simp add: sv_def)
qed

theorem set_returns_rounded_frequency_witness:
  "(0::int) < 15626 \<and> fst (set_freq 15626 new_generator) \<noteq> - 1
     \<and> fst (set_freq 15626 new_generator) = (16000000 * 3 * 2 div (2 ^ 2 * 768) + 1) div 2
     \<and> read (snd (set_freq 15626 new_generator)) = 15625"
proof -
  have h: "(0::int) < 15626" "fst (set_freq 15626 new_generator) \<noteq> - 1"
    by (simp_all add: run_15626)
  have c: "CKM ! 3 = 3" by (simp add: CKM_def)
  from set_returns_rounded_frequency [OF h] h show ?thesis
    by (simp add: search_15626 F_CPU_def c)
qed

section \<open>The reload count\<close>

text \<open>
  C4: for a clock source other than index 1 that passed the shift check, with a target
  \<open>f > 0\<close>, the reload count is \<open>((CK * 2 / PS / f) + 1) / 2\<close> in truncating integer
  division, where \<open>CK = F_CPU * CKM[pll]\<close> and \<open>PS = 2 ^ shift\<close> (storing it in an
  \<open>unsigned\<close> loses nothing), and the clock source yields a candidate exactly when the
  count is between 4 and 1023: counts 4 and 1023 are accepted, counts 3 and 1024
  rejected.
\<close>

theorem reload_count_rounding_and_range:
  assumes "0 < Freq" "is_long Freq" "pll < length CKM" "pll \<noteq> 1"
    and "lg = prescale_shift Freq pll" "lg \<le> 14" "cnt = reload_count Freq pll lg"
  shows "cnt = (F_CPU * CKM ! pll * 2 div 2 ^ lg div Freq + 1) div 2
     \<and> cnt = (F_CPU * CKM ! pll * 2 sdiv 2 ^ lg sdiv Freq + 1) sdiv 2
     \<and> ((\<exists>dif. evaluate Freq pll = Candidate lg cnt dif) \<longleftrightarrow> 4 \<le> cnt \<and> cnt \<le> 1023)
     \<and> (evaluate Freq pll = Rejected_count \<longleftrightarrow> cnt < 4 \<or> 1023 < cnt)
     \<and> (cnt = 4 \<or> cnt = 1023 \<longrightarrow> (\<exists>dif. evaluate Freq pll = Candidate lg cnt dif))
     \<and> (cnt = 3 \<or> cnt = 1024 \<longrightarrow> evaluate Freq pll = Rejected_count)"
proof -
  have p: "pll < 4" using assms(3) by (simp add: length_CKM)
  have ck: "clock pll = F_CPU * CKM ! pll" using clock_eq [OF p] by (simp add: F_CPU_def)
  have cov: "divisor_estimate Freq pll < 2 ^ lg"
    using prescale_shift_covers [OF assms(1,2) p] assms(5) by simp
  have e: "cnt = (F_CPU * CKM ! pll * 2 div 2 ^ lg div Freq + 1) div 2"
    using reload_count_eq(1) [OF assms(1,2) p assms(6) cov] assms(7) by (simp add: ck)
  have num: "0 \<le> F_CPU * CKM ! pll * 2" using p by (simp add: F_CPU_def CKM_nth)
  have q1: "0 \<le> F_CPU * CKM ! pll * 2 div 2 ^ lg" using num by (simp add: pos_imp_zdiv_nonneg_iff)
  have q2: "0 \<le> F_CPU * CKM ! pll * 2 div 2 ^ lg div Freq"
    using q1 assms(1) by (simp add: pos_imp_zdiv_nonneg_iff)
  have s1: "F_CPU * CKM ! pll * 2 sdiv 2 ^ lg = F_CPU * CKM ! pll * 2 div 2 ^ lg"
    using num by (intro sdiv_nonneg) simp_all
  have s2: "F_CPU * CKM ! pll * 2 div 2 ^ lg sdiv Freq = F_CPU * CKM ! pll * 2 div 2 ^ lg div Freq"
    using q1 assms(1) by (intro sdiv_nonneg)
  have s3: "(F_CPU * CKM ! pll * 2 div 2 ^ lg div Freq + 1) sdiv 2
          = (F_CPU * CKM ! pll * 2 div 2 ^ lg div Freq + 1) div 2"
    using q2 by (intro sdiv_nonneg) simp_all
  have e': "cnt = (F_CPU * CKM ! pll * 2 sdiv 2 ^ lg sdiv Freq + 1) sdiv 2"
    unfolding s1 s2 s3 by (rule e)
  have c: "(\<exists>dif. evaluate Freq pll = Candidate lg cnt dif) \<longleftrightarrow> 4 \<le> cnt \<and> cnt \<le> 1023"
    using assms(4-7) by (auto simp: evaluate_def Let_def)
  have r: "evaluate Freq pll = Rejected_count \<longleftrightarrow> cnt < 4 \<or> 1023 < cnt"
    using assms(4-7) by (auto simp: evaluate_def Let_def)
  show ?thesis using e e' c r by auto
qed

theorem reload_count_rounding_and_range_witness:
  "(0::int) < 4000000 \<and> is_long 4000000 \<and> (0::nat) < length CKM \<and> (0::nat) \<noteq> 1
     \<and> (0::nat) = prescale_shift 4000000 0 \<and> (0::nat) \<le> 14
     \<and> (4::int) = reload_count 4000000 0 0
     \<and> (4::int) = (F_CPU * CKM ! 0 * 2 div 2 ^ 0 div 4000000 + 1) div 2
     \<and> (\<exists>dif. evaluate 4000000 0 = Candidate 0 4 dif)
     \<and> (3::int) = reload_count 5000000 0 0 \<and> evaluate 5000000 0 = Rejected_count
     \<and> (1023::int) = reload_count 15640 0 0 \<and> (\<exists>dif. evaluate 15640 0 = Candidate 0 1023 dif)
     \<and> (1024::int) = reload_count 15626 0 0 \<and> evaluate 15626 0 = Rejected_count"
proof -
  have i: "(0::nat) < length CKM" "(0::nat) \<noteq> 1" "(0::nat) \<le> 14"
    by (simp_all add: length_CKM)
  have h4: "(0::int) < 4000000" "is_long 4000000"
    "(0::nat) = prescale_shift 4000000 0" "(4::int) = reload_count 4000000 0 0"
    by (simp_all add: is_long_def evaluate_count_boundaries)
  have h3: "(0::int) < 5000000" "is_long 5000000"
    "(0::nat) = prescale_shift 5000000 0" "(3::int) = reload_count 5000000 0 0"
    by (simp_all add: is_long_def evaluate_count_boundaries)
  have h1023: "(0::int) < 15640" "is_long 15640"
    "(0::nat) = prescale_shift 15640 0" "(1023::int) = reload_count 15640 0 0"
    by (simp_all add: is_long_def evaluate_count_boundaries)
  have h1024: "(0::int) < 15626" "is_long 15626"
    "(0::nat) = prescale_shift 15626 0" "(1024::int) = reload_count 15626 0 0"
    by (simp_all add: is_long_def evaluate_count_boundaries)
  from reload_count_rounding_and_range [OF h4(1,2) i(1,2) h4(3) i(3) h4(4)]
  have a: "(4::int) = (F_CPU * CKM ! 0 * 2 div 2 ^ 0 div 4000000 + 1) div 2"
    "\<exists>dif. evaluate 4000000 0 = Candidate 0 4 dif" by blast+
  from reload_count_rounding_and_range [OF h3(1,2) i(1,2) h3(3) i(3) h3(4)]
  have b: "evaluate 5000000 0 = Rejected_count" by blast
  from reload_count_rounding_and_range [OF h1023(1,2) i(1,2) h1023(3) i(3) h1023(4)]
  have c: "\<exists>dif. evaluate 15640 0 = Candidate 0 1023 dif" by blast
  from reload_count_rounding_and_range [OF h1024(1,2) i(1,2) h1024(3) i(3) h1024(4)]
  have d: "evaluate 15626 0 = Rejected_count" by blast
  from i h4 h3(4) h1023(4) h1024(4) a b c d show ?thesis by blast
qed

section \<open>The prescaler shift\<close>

lemma ceiling_log2_bit_length:
  assumes "2 ^ m \<le> CV" "CV < 2 ^ (m + 1)"
  shows "\<lceil>log 2 (real_of_int (CV + 1))\<rceil> = int m + 1"
proof -
  have "(0::int) < 2 ^ m" by simp
  with assms(1) have pos: "0 < CV" by linarith
  have a: "2 ^ m < nat (CV + 1)" using assms(1) pos by (simp add: nat_less_iff flip: of_nat_less_iff)
  have b: "nat (CV + 1) \<le> 2 ^ (m + 1)" using assms(2) pos by (simp add: nat_le_iff)
  have "\<lceil>log (real 2) (real (nat (CV + 1)))\<rceil> = int m + 1"
    using a b by (rule ceiling_log_nat_eq_if) simp
  moreover have "real (nat (CV + 1)) = real_of_int (CV + 1)" using pos by simp
  ultimately show ?thesis by simp
qed

text \<open>
  C5: for a clock source with divisor estimate \<open>CV = CK / f / 1024\<close> (truncating), the
  shift is 0 when \<open>CV = 0\<close> and otherwise the count of the halving loop plus one; this is
  \<open>ceil(log2(CV + 1))\<close>, the least \<open>n\<close> with \<open>CV + 1 \<le> 2 ^ n\<close>. A clock source other than
  index 1 is rejected at this check exactly when the shift exceeds 14.
\<close>

theorem prescale_shift_is_bit_length:
  assumes "0 < Freq" "is_long Freq" "pll < length CKM"
    and "CV = F_CPU * CKM ! pll div Freq div 1024"
  shows "(CV = 0 \<longrightarrow> prescale_shift Freq pll = 0)
     \<and> (CV \<noteq> 0 \<longrightarrow> prescale_shift Freq pll = log2_loop CV 0 + 1)
     \<and> int (prescale_shift Freq pll) = \<lceil>log 2 (real_of_int (CV + 1))\<rceil>
     \<and> CV + 1 \<le> 2 ^ prescale_shift Freq pll
     \<and> (\<forall>n. CV + 1 \<le> 2 ^ n \<longrightarrow> prescale_shift Freq pll \<le> n)
     \<and> (pll \<noteq> 1 \<longrightarrow> (evaluate Freq pll = Rejected_clock \<longleftrightarrow> 14 < prescale_shift Freq pll))"
proof -
  have p: "pll < 4" using assms(3) by (simp add: length_CKM)
  have ck: "clock pll = F_CPU * CKM ! pll" using clock_eq [OF p] by (simp add: F_CPU_def)
  have cv: "divisor_estimate Freq pll = CV"
    using divisor_estimate_eq(1) [OF assms(1,2) p] by (simp add: ck assms(4))
  have r: "0 \<le> CV" "CV < 2 ^ 31"
    using divisor_estimate_eq(2,3) [OF assms(1,2) p] by (simp_all add: cv)
  have sh: "prescale_shift Freq pll = log2_byte CV" by (simp add: prescale_shift_def cv)
  have z: "CV = 0 \<longrightarrow> prescale_shift Freq pll = 0" by (simp add: sh log2_byte_zero)
  have nz: "prescale_shift Freq pll = log2_loop CV 0 + 1
      \<and> int (prescale_shift Freq pll) = \<lceil>log 2 (real_of_int (CV + 1))\<rceil>" if "CV \<noteq> 0"
  proof -
    from that r have "1 \<le> CV" by simp
    from log2_byte_pos [OF this r(2)] obtain m where
      m: "log2_byte CV = m + 1" "log2_loop CV 0 = m" "2 ^ m \<le> CV" "CV < 2 ^ (m + 1)" by blast
    show ?thesis using m(1,2) ceiling_log2_bit_length [OF m(3,4)] by (simp add: sh)
  qed
  have l0: "int (prescale_shift Freq pll) = \<lceil>log 2 (real_of_int (CV + 1))\<rceil>"
    using nz z by (cases "CV = 0") simp_all
  have up: "CV + 1 \<le> 2 ^ prescale_shift Freq pll"
    using log2_byte_spec(1) [OF r] by (simp add: sh)
  have least: "prescale_shift Freq pll \<le> n" if "CV + 1 \<le> 2 ^ n" for n
  proof -
    from that have "CV < 2 ^ n" by simp
    then show ?thesis using log2_byte_spec(2) [OF r] by (simp add: sh)
  qed
  have rej: "evaluate Freq pll = Rejected_clock \<longleftrightarrow> 14 < prescale_shift Freq pll" if "pll \<noteq> 1"
    using that by (auto simp: evaluate_def Let_def)
  show ?thesis using z nz l0 up least rej by blast
qed

theorem prescale_shift_is_bit_length_witness:
  "(0::int) < 1 \<and> is_long 1 \<and> (2::nat) < length CKM
     \<and> (62500::int) = F_CPU * CKM ! 2 div 1 div 1024
     \<and> prescale_shift 1 2 = log2_loop 62500 0 + 1 \<and> prescale_shift 1 2 = 16
     \<and> evaluate 1 2 = Rejected_clock"
proof -
  have c: "CKM ! 2 = 4" by (simp add: CKM_def)
  have h: "(0::int) < 1" "is_long 1" "(2::nat) < length CKM"
    "(62500::int) = F_CPU * CKM ! 2 div 1 div 1024"
    by (simp_all add: is_long_def length_CKM F_CPU_def c)
  from prescale_shift_is_bit_length [OF h]
  have "prescale_shift 1 2 = log2_loop 62500 0 + 1"
    and "evaluate 1 2 = Rejected_clock \<longleftrightarrow> 14 < prescale_shift 1 2" by simp_all
  with h evaluate_1Hz(4) show ?thesis by simp
qed

section \<open>The error score\<close>

text \<open>
  C6: for every candidate evaluated with a target \<open>f > 0\<close>, the score compared with the
  best so far is \<open>|CK - PS * count * f| / m\<close> in integer arithmetic: the product and
  the difference are formed first and fit a \<open>long\<close> without wrapping, and the division
  by the multiplier \<open>m\<close> comes afterwards (truncating, before the absolute value, which
  gives the same number).
\<close>

theorem error_score_formula:
  assumes "0 < Freq" "is_long Freq" "pll < length CKM"
    and "evaluate Freq pll = Candidate lg cnt dif"
  shows "dif = \<bar>F_CPU * CKM ! pll - 2 ^ lg * cnt * Freq\<bar> div CKM ! pll
     \<and> dif = \<bar>(F_CPU * CKM ! pll - 2 ^ lg * cnt * Freq) sdiv CKM ! pll\<bar>
     \<and> is_long (2 ^ lg * cnt * Freq) \<and> is_long (F_CPU * CKM ! pll - 2 ^ lg * cnt * Freq)
     \<and> loop_body Freq pll sv =
          (if dif < svDIF sv then \<lparr>svPLL = pll, svLG = lg, svCNT = cnt, svDIF = dif\<rparr> else sv)"
proof -
  have p: "pll < 4" using assms(3) by (simp add: length_CKM)
  have ck: "clock pll = F_CPU * CKM ! pll" using clock_eq [OF p] by (simp add: F_CPU_def)
  note c = evaluate_CandidateD [OF assms(4)]
  have cov: "divisor_estimate Freq pll < 2 ^ lg"
    using prescale_shift_covers [OF assms(1,2) p] c(2) by simp
  note e = error_score_eq [OF assms(1,2) p c(3) cov c(4,5,6), unfolded ck, folded c(7)]
  have m: "0 < CKM ! pll" using p by (simp add: CKM_nth)
  have "\<bar>(F_CPU * CKM ! pll - 2 ^ lg * cnt * Freq) sdiv CKM ! pll\<bar>
      = \<bar>F_CPU * CKM ! pll - 2 ^ lg * cnt * Freq\<bar> div CKM ! pll"
    using m by (rule abs_sdiv_pos)
  moreover have "loop_body Freq pll sv =
          (if dif < svDIF sv then \<lparr>svPLL = pll, svLG = lg, svCNT = cnt, svDIF = dif\<rparr> else sv)"
    by (simp add: loop_body_def assms(4))
  ultimately show ?thesis using e(1,4,5) by simp
qed

theorem error_score_formula_witness:
  "(0::int) < 15626 \<and> is_long 15626 \<and> (3::nat) < length CKM
     \<and> evaluate 15626 3 = Candidate 2 768 1024
     \<and> (1024::int) = \<bar>F_CPU * CKM ! 3 - 2 ^ 2 * 768 * 15626\<bar> div CKM ! 3
     \<and> is_long (2 ^ 2 * 768 * 15626)"
proof -
  have h: "(0::int) < 15626" "is_long 15626" "(3::nat) < length CKM"
    "evaluate 15626 3 = Candidate 2 768 1024"
    by (simp_all add: is_long_def length_CKM evaluate_15626)
  from error_score_formula [OF h]
  have "(1024::int) = \<bar>F_CPU * CKM ! 3 - 2 ^ 2 * 768 * 15626\<bar> div CKM ! 3"
    "is_long (2 ^ 2 * 768 * 15626)" by blast+
  with h show ?thesis by blast
qed

section \<open>The excluded clock source\<close>

lemma search_clock_index: "svPLL (search Freq) = 0 \<or> svPLL (search Freq) = 2 \<or> svPLL (search Freq) = 3"
proof (cases "search Freq = locals0\<lparr>svDIF := 0x7FFFFFFF\<rparr>")
  case True
  then show ?thesis by (simp add: locals0_def)
next
  case False
  with search_choice [of Freq] have "svPLL (search Freq) < 4"
    and c: "evaluate Freq (svPLL (search Freq)) =
        Candidate (svLG (search Freq)) (svCNT (search Freq)) (svDIF (search Freq))" by blast+
  moreover have "svPLL (search Freq) \<noteq> 1" using evaluate_CandidateD(1) [OF c] .
  ultimately show ?thesis by arith
qed

lemma pll_select_values:
  "to_byte (0x4A OR push_bit 4 (int 0 AND 3)) = 0x4A"
  "to_byte (0x4A OR push_bit 4 (int 2 AND 3)) = 0x6A"
  "to_byte (0x4A OR push_bit 4 (int 3 AND 3)) = 0x7A"
  by (simp_all add: to_byte_def)

text \<open>
  C7: for every target frequency the clock index saved by the search is 0, 2 or 3,
  never the excluded index 1 (the 96 MHz multiplier); \<open>set\<close> either leaves the clock
  select register \<open>PLLFRQ\<close> as it was or writes one of the values for index 0, 2 or 3,
  and after a successful \<open>set(f)\<close> with \<open>f > 0\<close> the register holds the value for the
  index the search saved.
\<close>

theorem excluded_clock_never_chosen:
  "clock 1 = 96000000
     \<and> (svPLL (search Freq) = 0 \<or> svPLL (search Freq) = 2 \<or> svPLL (search Freq) = 3)
     \<and> svPLL (search Freq) \<noteq> 1
     \<and> (PLLFRQ (snd (set_freq Freq g)) = PLLFRQ g
          \<or> PLLFRQ (snd (set_freq Freq g)) = 0x4A \<or> PLLFRQ (snd (set_freq Freq g)) = 0x6A
          \<or> PLLFRQ (snd (set_freq Freq g)) = 0x7A)
     \<and> (0 < Freq \<and> fst (set_freq Freq g) \<noteq> - 1 \<longrightarrow>
          PLLFRQ (snd (set_freq Freq g)) = 0x4A + 16 * int (svPLL (search Freq)))"
proof -
  note idx = search_clock_index [of Freq]
  have written: "PLLFRQ (snd (set_freq Freq g)) = 0x4A + 16 * int (svPLL (search Freq))"
    if "0 < Freq" "fst (set_freq Freq g) \<noteq> - 1"
  proof -
    have found: "svDIF (search Freq) < 0x7FFFFFFF"
      using that by (simp add: set_freq_success_iff)
    have "1 \<le> actual_frequency (search Freq)"
      using search_winner(1,3,4,5) [OF found] by (rule actual_frequency_eq(2))
    then have "PLLFRQ (snd (set_freq Freq g))
        = to_byte (0x4A OR push_bit 4 (int (svPLL (search Freq)) AND 3))"
      by (simp add: set_freq_found [OF that(1) found] program_timer_def Let_def)
    with idx show ?thesis using pll_select_values by auto
  qed
  have kept: "PLLFRQ (snd (set_freq Freq g)) = PLLFRQ g"
    if "\<not> (0 < Freq \<and> fst (set_freq Freq g) \<noteq> - 1)"
  proof (cases "0 < Freq")
    case True
    with that have "\<not> svDIF (search Freq) < 0x7FFFFFFF"
      by (simp add: set_freq_success_iff)
    then show ?thesis by (simp add: set_freq_not_found [OF True])
  next
    case False
    then show ?thesis by (simp add: set_freq_def program_timer_def Let_def)
  qed
  have c1: "clock 1 = 96000000" by (simp add: clock_eq CKM_nth)
  show ?thesis
    using c1 idx written kept by (cases "0 < Freq \<and> fst (set_freq Freq g) \<noteq> - 1") auto
qed

theorem excluded_clock_never_chosen_witness:
  "(0::int) < 15626 \<and> fst (set_freq 15626 new_generator) \<noteq> - 1
     \<and> svPLL (search 15626) = 3 \<and> PLLFRQ (snd (set_freq 15626 new_generator)) = 0x7A"
proof -
  have h: "(0::int) < 15626 \<and> fst (set_freq 15626 new_generator) \<noteq> - 1"
    by (simp add: run_15626)
  have s: "svPLL (search 15626) = 3" by (simp add: search_15626)
  from excluded_clock_never_chosen [of 15626 new_generator] h
  have "PLLFRQ (snd (set_freq 15626 new_generator)) = 0x4A + 16 * int (svPLL (search 15626))"
    by blast
  with h s show ?thesis by simp
qed

section \<open>Switching off and querying\<close>

text \<open>
  C8: \<open>set(0)\<close> always succeeds: whatever the object held before, the stored
  frequency becomes 0, the call returns 0, and a following \<open>read()\<close> returns 0 (the
  timer is stopped and the pin released on the way).
\<close>

theorem set_zero_disables:
  "fst (set_freq 0 g) = 0 \<and> FreqGenVal (snd (set_freq 0 g)) = 0
     \<and> read (snd (set_freq 0 g)) = 0
     \<and> TCCR4A (snd (set_freq 0 g)) = {} \<and> TCCR4B (snd (set_freq 0 g)) = 0
     \<and> pin5 (snd (set_freq 0 g)) = INPUT_PULLUP"
  by (simp add: set_freq_def program_timer_def read_def Let_def)

text \<open>
  C9: for a negative argument \<open>set\<close> runs no search and changes nothing: it returns
  the stored frequency, the object and the registers are as before, and a following
  \<open>read()\<close> returns what it returned before the call.
\<close>

theorem set_negative_is_query:
  "Freq < 0 \<Longrightarrow>
     set_freq Freq g = (FreqGenVal g, g) \<and> read (snd (set_freq Freq g)) = read g"
  by (simp add: set_freq_def)

theorem set_negative_is_query_witness:
  "(- 1 :: int) < 0
     \<and> set_freq (- 1) (new_generator\<lparr>FreqGenVal := 1000\<rparr>)
         = (1000, new_generator\<lparr>FreqGenVal := 1000\<rparr>)
     \<and> read (snd (set_freq (- 1) (new_generator\<lparr>FreqGenVal := 1000\<rparr>))) = 1000"
  using set_negative_is_query [of "- 1" "new_generator\<lparr>FreqGenVal := 1000\<rparr>"]
  by (simp add: read_def)

section \<open>The stored frequency is never negative\<close>

lemma set_freq_keeps_nonneg:
  assumes "0 \<le> FreqGenVal g"
  shows "0 \<le> FreqGenVal (snd (set_freq Freq g))"
proof -
  consider "Freq < 0" | "Freq = 0" | "0 < Freq" "svDIF (search Freq) < 0x7FFFFFFF"
    | "0 < Freq" "\<not> svDIF (search Freq) < 0x7FFFFFFF" by linarith
  then show ?thesis
  proof cases
    case 1
    then show ?thesis using assms by (simp add: set_freq_def)
  next
    case 2
    then show ?thesis by (simp add: set_freq_def Let_def program_timer_FreqGenVal)
  next
    case 3
    have "1 \<le> actual_frequency (search Freq)"
      using search_winner(1,3,4,5) [OF 3(2)] by (rule actual_frequency_eq(2))
    then show ?thesis by (simp add: set_freq_found [OF 3] program_timer_FreqGenVal)
  next
    case 4
    then show ?thesis using assms by (simp add: set_freq_not_found)
  qed
qed

lemma run_keeps_nonneg: "0 \<le> FreqGenVal g \<Longrightarrow> 0 \<le> FreqGenVal (run cs g)"
proof (induction cs arbitrary: g)
  case Nil
  then show ?case by (simp add: run_def)
next
  case (Cons c cs)
  have "0 \<le> FreqGenVal (snd (do_call c g))"
    using Cons.prems by (cases c) (simp_all add: set_freq_keeps_nonneg)
  from Cons.IH [OF this] show ?case by (simp add: run_def)
qed

lemma run_example:
  "read (run [Set 15626, Read, Set 50000000, Set (- 1)] new_generator) = 15625"
  by code_simp

text \<open>
  C10: an object starts with the stored frequency 0, and every call of \<open>set\<close>, whatever
  its argument, and every call of \<open>read\<close> keeps the stored frequency non-negative. So
  after any sequence of calls \<open>read()\<close> returns a non-negative value, never the
  sentinel \<open>-1\<close>, and the next call keeps it so.
\<close>

theorem stored_frequency_nonnegative:
  assumes "FreqGenVal g = 0"
  shows "0 \<le> FreqGenVal (run cs g) \<and> 0 \<le> read (run cs g) \<and> read (run cs g) \<noteq> - 1
     \<and> fst (do_call Read (run cs g)) \<noteq> - 1
     \<and> 0 \<le> FreqGenVal (snd (do_call c (run cs g)))"
proof -
  have inv: "0 \<le> FreqGenVal (run cs g)" using assms by (intro run_keeps_nonneg) simp
  have "0 \<le> FreqGenVal (snd (do_call c (run cs g)))"
    using inv by (cases c) (simp_all add: set_freq_keeps_nonneg)
  with inv show ?thesis by (simp add: read_def)
qed

theorem stored_frequency_nonnegative_witness:
  "FreqGenVal new_generator = 0
     \<and> read (run [Set 15626, Read, Set 50000000, Set (- 1)] new_generator) = 15625
     \<and> fst (do_call Read (run [Set 15626, Read, Set 50000000, Set (- 1)] new_generator)) \<noteq> - 1"
proof -
  have h: "FreqGenVal new_generator = 0" by (simp add: new_generator_def)
  from stored_frequency_nonnegative [OF h, of "[Set 15626, Read, Set 50000000, Set (- 1)]"]
  have "fst (do_call Read (run [Set 15626, Read, Set 50000000, Set (- 1)] new_generator)) \<noteq> - 1"
    by blast
  with h run_example show ?thesis by blast
qed

end
